theory Spec2Isabelle
  imports Main "HOL-Library.Word"
begin

section \<open>Data model of the bcrypt plugin (src/main.cpp)\<close>

text \<open>
  A \<open>cell\<close> is the 32-bit value of the AMX abstract machine; the C type \<open>int\<close> of the
  plugin has the same width, so \<open>(int) params[1]\<close> keeps the bit pattern.
\<close>

type_synonym cell = "32 word"

text \<open>
  Modelled from the spec: \<open>main.h\<close>, which declares \<open>bcrypt_queue_item\<close>, the queue
  \<open>bcrypt_queue\<close> and the two constants \<open>BCRYPT_QUEUE_HASH\<close> and \<open>BCRYPT_QUEUE_CHECK\<close>,
  is not among the sources. The operation kind is the enumeration of the two kinds of the
  spec's Result Record; the fields and their order are those of the two initialisers in
  \<open>thread_generate_bcrypt\<close> and \<open>thread_check_bcrypt\<close>.
\<close>

datatype queue_type = BCRYPT_QUEUE_HASH | BCRYPT_QUEUE_CHECK

record bcrypt_queue_item =
  type :: queue_type
  thread_idx :: cell
  thread_id :: cell
  hash :: string
  match :: bool

text \<open>
  A detached \<open>std::thread\<close>: the function it runs and the arguments it was started with.
\<close>

datatype thread =
  Thread_generate_bcrypt cell cell string "16 word"
| Thread_check_bcrypt cell cell string string

text \<open>
  The state the plugin works on: the two globals \<open>p_Amx\<close> and \<open>bcrypt_queue\<close>, the lines
  written through \<open>logprintf\<close>, and the threads started and detached so far.
\<close>

record 'amx plugin =
  p_Amx :: "'amx list"
  bcrypt_queue :: "bcrypt_queue_item list"
  logprintf :: "string list"
  threads :: "thread list"

text \<open>
  The collaborators outside \<open>main.cpp\<close> are parameters of the model: the bcrypt primitive
  (\<open>bcrypt.h\<close>) and the functions of the AMX programming interface that return a value
  the plugin looks at. \<open>amx_FindPublic\<close> gives its error code (0 is \<open>AMX_ERR_NONE\<close>)
  and the index it stores; \<open>amx_GetString\<close> gives the C string found in the buffer of
  the given size.
\<close>

record ('amx, 'addr) extern =
  bcrypt_generate :: "16 word \<Rightarrow> string \<Rightarrow> string \<Rightarrow> string"
  bcrypt_compare :: "string \<Rightarrow> string \<Rightarrow> bool"
  amx_GetAddr :: "'amx \<Rightarrow> cell \<Rightarrow> 'addr"
  amx_StrLen :: "'addr \<Rightarrow> int"
  amx_GetString :: "'addr \<Rightarrow> int \<Rightarrow> string"
  amx_FindPublic :: "'amx \<Rightarrow> string \<Rightarrow> int \<times> int"

text \<open>
  The calls into a script context that have an effect there, in the order they are made.
  A callback invocation is one \<open>amx_Exec\<close>.
\<close>

datatype 'amx amx_call =
  amx_PushString 'amx string
| amx_Push 'amx cell
| amx_Exec 'amx int
| amx_Release 'amx

section \<open>Diagnostics\<close>

definition bcrypt_error :: "string \<Rightarrow> string \<Rightarrow> 'amx plugin \<Rightarrow> 'amx plugin" where
  "bcrypt_error funcname error s =
     s\<lparr>logprintf := logprintf s @
         [''bcrypt error: '' @ error @ '' (Called from '' @ funcname @ '')'']\<rparr>"

section \<open>Workers\<close>

text \<open>Lines 21-38: the digest is computed first, the push happens under the mutex.\<close>

definition thread_generate_bcrypt ::
  "('amx, 'addr) extern \<Rightarrow> cell \<Rightarrow> cell \<Rightarrow> string \<Rightarrow> 16 word \<Rightarrow>
   bcrypt_queue_item list \<Rightarrow> bcrypt_queue_item list" where
  "thread_generate_bcrypt ext t_idx t_id buffer cost queue =
     (let h = bcrypt_generate ext cost ''2y'' buffer
      in queue @ [\<lparr>type = BCRYPT_QUEUE_HASH, thread_idx = t_idx, thread_id = t_id,
                   hash = h, match = False\<rparr>])"

text \<open>Lines 87-96.\<close>

definition thread_check_bcrypt ::
  "('amx, 'addr) extern \<Rightarrow> cell \<Rightarrow> cell \<Rightarrow> string \<Rightarrow> string \<Rightarrow>
   bcrypt_queue_item list \<Rightarrow> bcrypt_queue_item list" where
  "thread_check_bcrypt ext t_idx t_id password h queue =
     (let m = bcrypt_compare ext password h
      in queue @ [\<lparr>type = BCRYPT_QUEUE_CHECK, thread_idx = t_idx, thread_id = t_id,
                   hash = '''', match = m\<rparr>])"

text \<open>What a started thread does to the queue when it reaches its critical section.\<close>

fun run_thread ::
  "('amx, 'addr) extern \<Rightarrow> thread \<Rightarrow> bcrypt_queue_item list \<Rightarrow> bcrypt_queue_item list" where
  "run_thread ext (Thread_generate_bcrypt t_idx t_id buffer cost) queue =
     thread_generate_bcrypt ext t_idx t_id buffer cost queue"
| "run_thread ext (Thread_check_bcrypt t_idx t_id password h) queue =
     thread_check_bcrypt ext t_idx t_id password h queue"

section \<open>Natives\<close>

text \<open>
  The frame a native receives: \<open>params[0]\<close> holds the size in bytes of the arguments
  that follow it, one cell of four bytes each.
\<close>

definition amx_frame :: "cell list \<Rightarrow> bool" where
  "amx_frame params \<longleftrightarrow>
     params \<noteq> [] \<and> uint (params ! 0) = 4 * int (length params - 1)"

text \<open>
  Lines 41-85. \<open>sizeof(cell)\<close> is 4. The cost is the cell cast to \<open>unsigned short\<close>. The
  string is read only when \<open>amx_StrLen\<close> gave a length other than 0 (\<open>if (len++)\<close>);
  the buffer then has \<open>len + 1\<close> bytes.
\<close>

definition bcrypt_hash ::
  "('amx, 'addr) extern \<Rightarrow> 'amx \<Rightarrow> cell list \<Rightarrow> 'amx plugin \<Rightarrow> cell \<times> 'amx plugin" where
  "bcrypt_hash ext amx params s =
     (if params ! 0 \<noteq> 4 * 4 then
        (0, bcrypt_error ''bcrypt_hash'' ''Incorrect number of parameters (4 required)'' s)
      else
        let t_idx = params ! 1;
            t_id = params ! 2;
            cost = (ucast (params ! 4) :: 16 word)
        in
          if cost < 4 \<or> cost > 31 then
            (0, bcrypt_error ''bcrypt_hash''
                  ''Invalid work factor (cost). Allowed range: 4-31'' s)
          else
            let addr = amx_GetAddr ext amx (params ! 3);
                len = amx_StrLen ext addr;
                password = (if len \<noteq> 0 then amx_GetString ext addr (len + 1) else '''')
            in (1, s\<lparr>threads := threads s @
                       [Thread_generate_bcrypt t_idx t_id password cost]\<rparr>))"

text \<open>Lines 99-150.\<close>

definition bcrypt_check ::
  "('amx, 'addr) extern \<Rightarrow> 'amx \<Rightarrow> cell list \<Rightarrow> 'amx plugin \<Rightarrow> cell \<times> 'amx plugin" where
  "bcrypt_check ext amx params s =
     (if params ! 0 \<noteq> 4 * 4 then
        (0, bcrypt_error ''bcrypt_check'' ''Incorrect number of parameters (4 required)'' s)
      else
        let t_idx = params ! 1;
            t_id = params ! 2;
            addr0 = amx_GetAddr ext amx (params ! 3);
            len0 = amx_StrLen ext addr0;
            addr1 = amx_GetAddr ext amx (params ! 4);
            len1 = amx_StrLen ext addr1;
            password = (if len0 \<noteq> 0 then amx_GetString ext addr0 (len0 + 1) else '''');
            h = (if len1 \<noteq> 0 then amx_GetString ext addr1 (len1 + 1) else '''')
        in (1, s\<lparr>threads := threads s @ [Thread_check_bcrypt t_idx t_id password h]\<rparr>))"

section \<open>Registry and drain loop\<close>

text \<open>Lines 236-240: the context is appended to the registry.\<close>

definition AmxLoad :: "'amx \<Rightarrow> 'amx plugin \<Rightarrow> 'amx plugin" where
  "AmxLoad amx s = s\<lparr>p_Amx := p_Amx s @ [amx]\<rparr>"

text \<open>Lines 187-220: the body of the inner loop, for context \<open>a\<close> and queue item \<open>t\<close>.\<close>

definition deliver ::
  "('amx, 'addr) extern \<Rightarrow> 'amx \<Rightarrow> bcrypt_queue_item \<Rightarrow> 'amx amx_call list" where
  "deliver ext a t =
     (if type t = BCRYPT_QUEUE_HASH then
        (case amx_FindPublic ext a ''OnBcryptHashed'' of
           (err, amx_idx) \<Rightarrow>
             if err = 0 then
               [amx_PushString a (hash t),
                amx_Push a (thread_id t),
                amx_Push a (thread_idx t),
                amx_Exec a amx_idx,
                amx_Release a]
             else [])
      else if type t = BCRYPT_QUEUE_CHECK then
        (case amx_FindPublic ext a ''OnBcryptChecked'' of
           (err, amx_idx) \<Rightarrow>
             if err = 0 then
               [amx_Push a (if match t then 1 else 0),
                amx_Push a (thread_id t),
                amx_Push a (thread_idx t),
                amx_Exec a amx_idx]
             else [])
      else [])"

text \<open>Lines 185-221: the inner loop over the queue.\<close>

fun queue_loop ::
  "('amx, 'addr) extern \<Rightarrow> 'amx \<Rightarrow> bcrypt_queue_item list \<Rightarrow> 'amx amx_call list" where
  "queue_loop ext a [] = []"
| "queue_loop ext a (t # ts) = deliver ext a t @ queue_loop ext a ts"

text \<open>Lines 183-222: the outer loop over the registry.\<close>

fun amx_loop ::
  "('amx, 'addr) extern \<Rightarrow> 'amx list \<Rightarrow> bcrypt_queue_item list \<Rightarrow> 'amx amx_call list" where
  "amx_loop ext [] queue = []"
| "amx_loop ext (a # as) queue = queue_loop ext a queue @ amx_loop ext as queue"

text \<open>Lines 180-225: what \<open>ProcessTick\<close> does while it holds the mutex.\<close>

definition ProcessTick_locked ::
  "('amx, 'addr) extern \<Rightarrow> 'amx plugin \<Rightarrow> 'amx amx_call list \<times> 'amx plugin" where
  "ProcessTick_locked ext s =
     (amx_loop ext (p_Amx s) (bcrypt_queue s), s\<lparr>bcrypt_queue := []\<rparr>)"

text \<open>Lines 176-227: one drain cycle, run without interference.\<close>

definition ProcessTick ::
  "('amx, 'addr) extern \<Rightarrow> 'amx plugin \<Rightarrow> 'amx amx_call list \<times> 'amx plugin" where
  "ProcessTick ext s =
     (if length (bcrypt_queue s) > 0 then ProcessTick_locked ext s else ([], s))"

section \<open>Workers running beside the drain loop\<close>

text \<open>
  The mutex makes the push of a worker (lines 34-37, 92-95) and the part of
  \<open>ProcessTick\<close> from line 180 to line 225 exclude each other, so each is one step of
  the system. The test of line 178 is made before the mutex is taken and is a step of its
  own: a worker can push between the test and the locked part. The host thread is either
  outside \<open>ProcessTick\<close> or between the test, which found the queue non-empty, and the
  lock.
\<close>

datatype tick_pc = Outside | Entered

text \<open>
  One entry per finished call of \<open>ProcessTick\<close>: the registry the call looped over,
  the queue items it walked through for every registered context and then cleared, and
  the calls it made. A call that found the queue empty has looped over nothing.
\<close>

record 'amx drain_cycle =
  contexts :: "'amx list"
  offered :: "bcrypt_queue_item list"
  calls :: "'amx amx_call list"

record 'amx system =
  plugin :: "'amx plugin"
  tick_pc :: tick_pc
  cycles :: "'amx drain_cycle list"

datatype 'amx event =
  Worker thread
| Host_AmxLoad 'amx
| Tick_test
| Tick_locked

fun step ::
  "('amx, 'addr) extern \<Rightarrow> 'amx event \<Rightarrow> 'amx system \<Rightarrow> 'amx system option" where
  "step ext (Worker th) sys =
     Some (sys\<lparr>plugin := (plugin sys)
             \<lparr>bcrypt_queue := run_thread ext th (bcrypt_queue (plugin sys))\<rparr>\<rparr>)"
| "step ext (Host_AmxLoad amx) sys =
     (if tick_pc sys = Outside then Some (sys\<lparr>plugin := AmxLoad amx (plugin sys)\<rparr>)
      else None)"
| "step ext Tick_test sys =
     (if tick_pc sys = Outside then
        (if length (bcrypt_queue (plugin sys)) > 0 then Some (sys\<lparr>tick_pc := Entered\<rparr>)
         else Some (sys\<lparr>cycles := cycles sys @
                         [\<lparr>contexts = [], offered = [], calls = []\<rparr>]\<rparr>))
      else None)"
| "step ext Tick_locked sys =
     (if tick_pc sys = Entered then
        (case ProcessTick_locked ext (plugin sys) of
           (cs, s') \<Rightarrow>
             Some (sys\<lparr>plugin := s', tick_pc := Outside,
                       cycles := cycles sys @
                         [\<lparr>contexts = p_Amx (plugin sys),
                           offered = bcrypt_queue (plugin sys), calls = cs\<rparr>]\<rparr>))
      else None)"

text \<open>A run of the system; \<open>None\<close> when an event cannot happen in the state reached.\<close>

fun exec ::
  "('amx, 'addr) extern \<Rightarrow> 'amx event list \<Rightarrow> 'amx system \<Rightarrow> 'amx system option" where
  "exec ext [] sys = Some sys"
| "exec ext (e # es) sys =
     (case step ext e sys of None \<Rightarrow> None | Some sys' \<Rightarrow> exec ext es sys')"

text \<open>The records the workers of a run push, in the order of their pushes.\<close>

fun pushed :: "('amx, 'addr) extern \<Rightarrow> 'amx event list \<Rightarrow> bcrypt_queue_item list" where
  "pushed ext [] = []"
| "pushed ext (Worker th # es) = run_thread ext th [] @ pushed ext es"
| "pushed ext (e # es) = pushed ext es"

section \<open>Auxiliary notions for the statements\<close>

text \<open>A callback invocation is a call of \<open>amx_Exec\<close>.\<close>

fun is_callback :: "'amx amx_call \<Rightarrow> bool" where
  "is_callback (amx_Exec a i) = True"
| "is_callback c = False"

text \<open>The public function a queue item is delivered to.\<close>

definition public_name :: "bcrypt_queue_item \<Rightarrow> string" where
  "public_name t =
     (if type t = BCRYPT_QUEUE_HASH then ''OnBcryptHashed'' else ''OnBcryptChecked'')"

text \<open>
  An instance of the collaborators for running the model on concrete inputs: contexts are
  numbers, context 0 has neither public function, every other context has both at index 7;
  the string at address 0 is empty, every other string is \<open>abc\<close>.
\<close>

definition demo_extern :: "(nat, cell) extern" where
  "demo_extern =
     \<lparr>bcrypt_generate = (\<lambda>cost prefix key. ''$'' @ prefix @ ''$'' @ key),
      bcrypt_compare = (\<lambda>password h. h = ''$2y$'' @ password),
      amx_GetAddr = (\<lambda>amx c. c),
      amx_StrLen = (\<lambda>addr. if addr = 0 then 0 else 3),
      amx_GetString = (\<lambda>addr size. ''abc''),
      amx_FindPublic = (\<lambda>amx name. if amx = 0 then (19, 2147483647) else (0, 7))\<rparr>"

definition demo_plugin :: "nat plugin" where
  "demo_plugin = \<lparr>p_Amx = [1, 0, 2], bcrypt_queue = [], logprintf = [], threads = []\<rparr>"

definition demo_hash_item :: bcrypt_queue_item where
  "demo_hash_item =
     \<lparr>type = BCRYPT_QUEUE_HASH, thread_idx = 1, thread_id = 42, hash = ''$2y$abc'',
      match = False\<rparr>"

definition demo_check_item :: bcrypt_queue_item where
  "demo_check_item =
     \<lparr>type = BCRYPT_QUEUE_CHECK, thread_idx = 5, thread_id = 43, hash = [],
      match = True\<rparr>"

definition demo_system :: "nat system" where
  "demo_system = \<lparr>plugin = demo_plugin, tick_pc = Outside, cycles = []\<rparr>"

section \<open>Properties\<close>

subsection \<open>Helper facts\<close>

lemma frame_argc: "amx_frame params \<Longrightarrow> (params ! 0 = 16) = (length params - 1 = 4)"
  by (auto simp: amx_frame_def word_uint_eq_iff)

subsection \<open>The drain loop on an empty queue\<close>

text \<open>
  C8. A call of \<open>ProcessTick\<close> that finds the queue empty makes no call into any context,
  so no callback invocation, and returns the state it was given: the queue and the
  registry are unchanged.
\<close>

theorem ProcessTick_empty_queue:
  "bcrypt_queue s = [] \<Longrightarrow> ProcessTick ext s = ([], s)"
  by (simp add: ProcessTick_def)

theorem ProcessTick_empty_queue_witness:
  "bcrypt_queue demo_plugin = [] \<and>
   ProcessTick demo_extern demo_plugin = ([], demo_plugin) \<and>
   p_Amx (snd (ProcessTick demo_extern demo_plugin)) = [1, 0, 2]"
  using ProcessTick_empty_queue [of demo_plugin demo_extern]
  by (simp add: demo_plugin_def)

subsection \<open>The cost bounds of \<open>bcrypt_hash\<close>\<close>

text \<open>
  C2. For a call of \<open>bcrypt_hash\<close> with four arguments, let \<open>cost\<close> be the value the
  code range-checks, the fourth argument as an \<open>unsigned short\<close>. When \<open>cost\<close> is outside
  4..31 (3 and 32 among them) the native returns 0 and starts no thread. When \<open>cost\<close> is
  inside 4..31 (4 and 31 among them) the native returns 1 and has started exactly one
  thread, carrying the first two arguments and the cost; the queue is as before the call,
  so the native has not waited for the result of the worker.
\<close>

theorem bcrypt_hash_cost_bounds:
  assumes "amx_frame params" and "length params - 1 = 4"
  shows "(let cost = (ucast (params ! 4) :: 16 word);
              r = bcrypt_hash ext amx params s
          in if 4 \<le> cost \<and> cost \<le> 31
             then fst r = 1 \<and> bcrypt_queue (snd r) = bcrypt_queue s \<and>
                  (\<exists>password. threads (snd r) = threads s @
                     [Thread_generate_bcrypt (params ! 1) (params ! 2) password cost])
             else fst r = 0 \<and> threads (snd r) = threads s \<and>
                  bcrypt_queue (snd r) = bcrypt_queue s)"
  using assms
  by (auto simp: frame_argc bcrypt_hash_def Let_def bcrypt_error_def not_less)

theorem bcrypt_hash_cost_bounds_witness:
  "amx_frame [16, 1, 42, 100, 3] \<and> amx_frame [16, 1, 42, 100, 4] \<and>
   amx_frame [16, 1, 42, 100, 31] \<and> amx_frame [16, 1, 42, 100, 32] \<and>
   fst (bcrypt_hash demo_extern 1 [16, 1, 42, 100, 3] demo_plugin) = 0 \<and>
   fst (bcrypt_hash demo_extern 1 [16, 1, 42, 100, 4] demo_plugin) = 1 \<and>
   fst (bcrypt_hash demo_extern 1 [16, 1, 42, 100, 31] demo_plugin) = 1 \<and>
   fst (bcrypt_hash demo_extern 1 [16, 1, 42, 100, 32] demo_plugin) = 0"
  using bcrypt_hash_cost_bounds [of "[16, 1, 42, 100, 3]" demo_extern 1 demo_plugin]
        bcrypt_hash_cost_bounds [of "[16, 1, 42, 100, 4]" demo_extern 1 demo_plugin]
        bcrypt_hash_cost_bounds [of "[16, 1, 42, 100, 31]" demo_extern 1 demo_plugin]
        bcrypt_hash_cost_bounds [of "[16, 1, 42, 100, 32]" demo_extern 1 demo_plugin]
  by (simp add: amx_frame_def Let_def)

subsection \<open>The cost is read modulo 65536\<close>

lemma sub_mod: "((a :: int) - 4294967296) mod 65536 = a mod 65536"
proof -
  have "a - 4294967296 = a + 65536 * (- 65536)" by simp
  thus ?thesis by (simp only: mod_mult_self2)
qed

lemma sint_mod_65536: "sint (c :: cell) mod 65536 = uint c mod 65536"
proof -
  have b: "uint c mod 4294967296 = uint c"
    using uint_bounded [of c] by simp
  have "sint c = uint c \<or> sint c = uint c - 4294967296"
    by (simp add: sint_uint signed_take_bit_eq_take_bit_minus take_bit_eq_mod b)
  thus ?thesis using sub_mod [of "uint c"] by auto
qed

lemma uint_unsigned_short: "uint (ucast (c :: cell) :: 16 word) = sint c mod 65536"
  by (simp add: sint_mod_65536 unsigned_ucast_eq take_bit_eq_mod)

lemma range_4_31: "((k :: int) < 4 \<or> 31 < k) = (k \<notin> {4..31})"
  by auto

lemma cost_in_range:
  "((ucast (c :: cell) :: 16 word) < 4 \<or> (ucast c :: 16 word) > 31) =
   (sint c mod 65536 \<notin> {4..31})"
proof -
  have a: "uint (4 :: 16 word) = 4" "uint (31 :: 16 word) = 31"
    by simp_all
  show ?thesis
    by (simp only: word_less_def a uint_unsigned_short range_4_31)
qed

lemma if_not_P_swap: "(if x \<notin> A then (0::cell) else 1) = (if x \<in> A then 1 else 0)"
  by simp

lemma bcrypt_hash_fst:
  assumes "amx_frame params" and "length params - 1 = 4"
  shows "fst (bcrypt_hash ext amx params s) =
           (if (ucast (params ! 4) :: 16 word) < 4 \<or> (ucast (params ! 4) :: 16 word) > 31
            then 0 else 1)"
  using assms by (simp add: frame_argc bcrypt_hash_def Let_def)

lemma bcrypt_hash_accepts:
  assumes "amx_frame params" and "length params - 1 = 4"
  shows "fst (bcrypt_hash ext amx params s) =
           (if sint (params ! 4) mod 65536 \<in> {4..31} then 1 else 0)"
  unfolding bcrypt_hash_fst [OF assms] cost_in_range by (rule if_not_P_swap)

lemma mod_65540: "(k :: int) = 65540 \<Longrightarrow> k mod 65536 \<in> {4..31}"
  by simp

lemma minus_1_mod: "(- 1 :: int) mod 65536 = 65535"
  by simp

lemma mod_minus_1: "(k :: int) = - 1 \<Longrightarrow> k mod 65536 \<notin> {4..31}"
  using minus_1_mod by auto

text \<open>
  C10. \<open>bcrypt_hash\<close> range-checks its fourth argument after the cast to
  \<open>unsigned short\<close>, that is modulo 65536: a call with four arguments is accepted
  exactly when the value of the cell modulo 65536 lies in 4..31. The cell 65540 is read
  as 4 and accepted; the cell -1 is read as 65535 and rejected.
\<close>

theorem bcrypt_hash_cost_truncated:
  assumes "amx_frame params" and "length params - 1 = 4"
  shows "fst (bcrypt_hash ext amx params s) =
           (if sint (params ! 4) mod 65536 \<in> {4..31} then 1 else 0) \<and>
         (sint (params ! 4) = 65540 \<longrightarrow> fst (bcrypt_hash ext amx params s) = 1) \<and>
         (sint (params ! 4) = - 1 \<longrightarrow> fst (bcrypt_hash ext amx params s) = 0)"
proof (intro conjI impI)
  show a: "fst (bcrypt_hash ext amx params s) =
             (if sint (params ! 4) mod 65536 \<in> {4..31} then 1 else 0)"
    by (rule bcrypt_hash_accepts [OF assms])
  show "fst (bcrypt_hash ext amx params s) = 1" if "sint (params ! 4) = 65540"
    using a mod_65540 [OF that] by (simp only: if_True)
  show "fst (bcrypt_hash ext amx params s) = 0" if "sint (params ! 4) = - 1"
    using a mod_minus_1 [OF that] by (simp only: if_False)
qed

theorem bcrypt_hash_cost_truncated_witness:
  "amx_frame [16, 1, 42, 100, 65540] \<and> sint (65540 :: cell) = 65540 \<and>
   fst (bcrypt_hash demo_extern 1 [16, 1, 42, 100, 65540] demo_plugin) = 1 \<and>
   amx_frame [16, 1, 42, 100, - 1] \<and> sint (- 1 :: cell) = - 1 \<and>
   fst (bcrypt_hash demo_extern 1 [16, 1, 42, 100, - 1] demo_plugin) = 0"
proof -
  have f1: "amx_frame [16, 1, 42, 100, 65540]" and f2: "amx_frame [16, 1, 42, 100, - 1]"
    by (simp_all add: amx_frame_def)
  have l1: "length [16 :: cell, 1, 42, 100, 65540] - 1 = 4"
    and l2: "length [16 :: cell, 1, 42, 100, - 1] - 1 = 4"
    by simp_all
  have s1: "sint ([16 :: cell, 1, 42, 100, 65540] ! 4) = 65540"
    and s2: "sint ([16 :: cell, 1, 42, 100, - 1] ! 4) = - 1"
    by simp_all
  have s1': "sint (65540 :: cell) = 65540" and s2': "sint (- 1 :: cell) = - 1"
    by simp_all
  from bcrypt_hash_cost_truncated [OF f1 l1, of demo_extern 1 demo_plugin] s1
  have r1: "fst (bcrypt_hash demo_extern 1 [16, 1, 42, 100, 65540] demo_plugin) = 1"
    by blast
  from bcrypt_hash_cost_truncated [OF f2 l2, of demo_extern 1 demo_plugin] s2
  have r2: "fst (bcrypt_hash demo_extern 1 [16, 1, 42, 100, - 1] demo_plugin) = 0"
    by blast
  from f1 f2 s1' s2' r1 r2 show ?thesis by blast
qed

subsection \<open>Malformed requests\<close>

text \<open>
  C6. A call of \<open>bcrypt_hash\<close> or \<open>bcrypt_check\<close> whose number of arguments is not 4,
  and a call of \<open>bcrypt_hash\<close> with four arguments whose cost (as \<open>unsigned short\<close>) is
  outside 4..31, returns 0. The state it leaves differs from the state before only in
  the log, which has exactly one more line; the line names the native and gives the
  reason. So no thread is started and nothing is queued. The native is a total function
  with no other outcome.
\<close>

theorem malformed_request_rejected:
  assumes "amx_frame params"
  shows "(length params - 1 \<noteq> 4 \<longrightarrow>
            bcrypt_hash ext amx params s =
              (0, s\<lparr>logprintf := logprintf s @
                 [''bcrypt error: Incorrect number of parameters (4 required) (Called from bcrypt_hash)'']\<rparr>)) \<and>
         (length params - 1 \<noteq> 4 \<longrightarrow>
            bcrypt_check ext amx params s =
              (0, s\<lparr>logprintf := logprintf s @
                 [''bcrypt error: Incorrect number of parameters (4 required) (Called from bcrypt_check)'']\<rparr>)) \<and>
         (length params - 1 = 4 \<longrightarrow>
            ((ucast (params ! 4) :: 16 word) < 4 \<or> (ucast (params ! 4) :: 16 word) > 31) \<longrightarrow>
            bcrypt_hash ext amx params s =
              (0, s\<lparr>logprintf := logprintf s @
                 [''bcrypt error: Invalid work factor (cost). Allowed range: 4-31 (Called from bcrypt_hash)'']\<rparr>))"
  using assms
  by (simp add: frame_argc bcrypt_hash_def bcrypt_check_def Let_def bcrypt_error_def)

theorem malformed_request_rejected_witness:
  "amx_frame [12, 1, 42, 100] \<and> length [12 :: cell, 1, 42, 100] - 1 \<noteq> 4 \<and>
   bcrypt_hash demo_extern 1 [12, 1, 42, 100] demo_plugin =
     (0, demo_plugin\<lparr>logprintf :=
        [''bcrypt error: Incorrect number of parameters (4 required) (Called from bcrypt_hash)'']\<rparr>) \<and>
   bcrypt_check demo_extern 1 [12, 1, 42, 100] demo_plugin =
     (0, demo_plugin\<lparr>logprintf :=
        [''bcrypt error: Incorrect number of parameters (4 required) (Called from bcrypt_check)'']\<rparr>) \<and>
   amx_frame [16, 1, 42, 100, 32] \<and> (ucast (32 :: cell) :: 16 word) > 31 \<and>
   bcrypt_hash demo_extern 1 [16, 1, 42, 100, 32] demo_plugin =
     (0, demo_plugin\<lparr>logprintf :=
        [''bcrypt error: Invalid work factor (cost). Allowed range: 4-31 (Called from bcrypt_hash)'']\<rparr>)"
  using malformed_request_rejected [of "[12, 1, 42, 100]" demo_extern 1 demo_plugin]
        malformed_request_rejected [of "[16, 1, 42, 100, 32]" demo_extern 1 demo_plugin]
  by (simp add: amx_frame_def demo_plugin_def)

subsection \<open>Empty strings\<close>

text \<open>
  C7. In a call with four arguments (and, for \<open>bcrypt_hash\<close>, a cost in 4..31), a
  string argument of length 0 is no error: the native returns 1 and starts the thread
  with the empty string in that place, whatever the other string is. The thread then
  runs as for any other payload: it calls the primitive on the empty string and pushes
  one record.
\<close>

theorem empty_string_accepted:
  assumes "amx_frame params" and "length params - 1 = 4"
  shows "(amx_StrLen ext (amx_GetAddr ext amx (params ! 3)) = 0 \<longrightarrow>
            \<not> ((ucast (params ! 4) :: 16 word) < 4 \<or> (ucast (params ! 4) :: 16 word) > 31) \<longrightarrow>
            bcrypt_hash ext amx params s =
              (1, s\<lparr>threads := threads s @
                 [Thread_generate_bcrypt (params ! 1) (params ! 2) [] (ucast (params ! 4))]\<rparr>)) \<and>
         (amx_StrLen ext (amx_GetAddr ext amx (params ! 3)) = 0 \<longrightarrow>
            bcrypt_check ext amx params s =
              (1, s\<lparr>threads := threads s @
                 [Thread_check_bcrypt (params ! 1) (params ! 2) []
                    (if amx_StrLen ext (amx_GetAddr ext amx (params ! 4)) = 0 then []
                     else amx_GetString ext (amx_GetAddr ext amx (params ! 4))
                            (amx_StrLen ext (amx_GetAddr ext amx (params ! 4)) + 1))]\<rparr>)) \<and>
         (amx_StrLen ext (amx_GetAddr ext amx (params ! 4)) = 0 \<longrightarrow>
            bcrypt_check ext amx params s =
              (1, s\<lparr>threads := threads s @
                 [Thread_check_bcrypt (params ! 1) (params ! 2)
                    (if amx_StrLen ext (amx_GetAddr ext amx (params ! 3)) = 0 then []
                     else amx_GetString ext (amx_GetAddr ext amx (params ! 3))
                            (amx_StrLen ext (amx_GetAddr ext amx (params ! 3)) + 1))
                    []]\<rparr>)) \<and>
         run_thread ext (Thread_generate_bcrypt t_idx t_id [] cost) queue =
           queue @ [\<lparr>type = BCRYPT_QUEUE_HASH, thread_idx = t_idx, thread_id = t_id,
                      hash = bcrypt_generate ext cost ''2y'' [], match = False\<rparr>] \<and>
         run_thread ext (Thread_check_bcrypt t_idx t_id [] []) queue =
           queue @ [\<lparr>type = BCRYPT_QUEUE_CHECK, thread_idx = t_idx, thread_id = t_id,
                      hash = [], match = bcrypt_compare ext [] []\<rparr>]"
  using assms
  by (simp add: frame_argc bcrypt_hash_def bcrypt_check_def Let_def
      thread_generate_bcrypt_def thread_check_bcrypt_def)

theorem empty_string_accepted_witness:
  "amx_frame [16, 1, 42, 0, 10] \<and> amx_frame [16, 1, 43, 0, 0] \<and>
   amx_StrLen demo_extern (amx_GetAddr demo_extern 1 0) = 0 \<and>
   bcrypt_hash demo_extern 1 [16, 1, 42, 0, 10] demo_plugin =
     (1, demo_plugin\<lparr>threads := [Thread_generate_bcrypt 1 42 [] 10]\<rparr>) \<and>
   bcrypt_check demo_extern 1 [16, 1, 43, 0, 0] demo_plugin =
     (1, demo_plugin\<lparr>threads := [Thread_check_bcrypt 1 43 [] []]\<rparr>)"
  using empty_string_accepted [of "[16, 1, 42, 0, 10]" demo_extern 1 demo_plugin]
        empty_string_accepted [of "[16, 1, 43, 0, 0]" demo_extern 1 demo_plugin]
  by (simp add: amx_frame_def demo_plugin_def demo_extern_def)

subsection \<open>The two loops of the drain cycle\<close>

lemma queue_loop_concat: "queue_loop ext a ts = concat (map (deliver ext a) ts)"
  by (induction ts) simp_all

lemma amx_loop_concat:
  "amx_loop ext as queue = concat (map (\<lambda>a. queue_loop ext a queue) as)"
  by (induction as) simp_all

lemma queue_loop_append:
  "queue_loop ext a (ts @ us) = queue_loop ext a ts @ queue_loop ext a us"
  by (simp add: queue_loop_concat)

lemma amx_loop_append:
  "amx_loop ext (as @ bs) queue = amx_loop ext as queue @ amx_loop ext bs queue"
  by (simp add: amx_loop_concat)

lemma queue_loop_offers:
  assumes "t \<in> set ts"
  shows "\<exists>pre post. queue_loop ext a ts = pre @ deliver ext a t @ post"
proof -
  from assms obtain us vs where "ts = us @ t # vs"
    by (auto dest: split_list)
  hence "queue_loop ext a ts = queue_loop ext a us @ deliver ext a t @ queue_loop ext a vs"
    by (simp add: queue_loop_append)
  thus ?thesis by blast
qed

lemma amx_loop_offers:
  assumes "a \<in> set as" and "t \<in> set queue"
  shows "\<exists>pre post. amx_loop ext as queue = pre @ deliver ext a t @ post"
proof -
  from assms(1) obtain bs cs where "as = bs @ a # cs"
    by (auto dest: split_list)
  hence l: "amx_loop ext as queue =
      amx_loop ext bs queue @ queue_loop ext a queue @ amx_loop ext cs queue"
    by (simp add: amx_loop_append)
  from queue_loop_offers [OF assms(2), of ext a] obtain pre post
    where "queue_loop ext a queue = pre @ deliver ext a t @ post" by blast
  with l have "amx_loop ext as queue =
      (amx_loop ext bs queue @ pre) @ deliver ext a t @ (post @ amx_loop ext cs queue)"
    by simp
  thus ?thesis by blast
qed

lemma deliver_found:
  assumes "fst (amx_FindPublic ext a (public_name t)) = 0"
  shows "filter is_callback (deliver ext a t) =
           [amx_Exec a (snd (amx_FindPublic ext a (public_name t)))]"
proof (cases "type t")
  case BCRYPT_QUEUE_HASH
  with assms show ?thesis
    by (cases "amx_FindPublic ext a ''OnBcryptHashed''")
       (simp add: deliver_def public_name_def)
next
  case BCRYPT_QUEUE_CHECK
  with assms show ?thesis
    by (cases "amx_FindPublic ext a ''OnBcryptChecked''")
       (simp add: deliver_def public_name_def)
qed

lemma deliver_not_found:
  assumes "fst (amx_FindPublic ext a (public_name t)) \<noteq> 0"
  shows "deliver ext a t = []"
proof (cases "type t")
  case BCRYPT_QUEUE_HASH
  with assms show ?thesis
    by (cases "amx_FindPublic ext a ''OnBcryptHashed''")
       (simp add: deliver_def public_name_def)
next
  case BCRYPT_QUEUE_CHECK
  with assms show ?thesis
    by (cases "amx_FindPublic ext a ''OnBcryptChecked''")
       (simp add: deliver_def public_name_def)
qed

lemma deliver_empty_iff:
  "(deliver ext a t = []) = (fst (amx_FindPublic ext a (public_name t)) \<noteq> 0)"
proof
  assume e: "deliver ext a t = []"
  show "fst (amx_FindPublic ext a (public_name t)) \<noteq> 0"
  proof
    assume "fst (amx_FindPublic ext a (public_name t)) = 0"
    from deliver_found [OF this] e show False by simp
  qed
qed (rule deliver_not_found)

lemma fan_out_one:
  assumes "\<forall>a\<in>set as. fst (amx_FindPublic ext a (public_name t)) = 0"
  shows "length (filter is_callback (amx_loop ext as [t])) = length as"
  using assms
proof (induction as)
  case Nil
  show ?case by simp
next
  case (Cons a as)
  hence "filter is_callback (deliver ext a t) =
           [amx_Exec a (snd (amx_FindPublic ext a (public_name t)))]"
    by (simp add: deliver_found)
  with Cons show ?case by simp
qed

text \<open>
  C3. In a drain cycle over a non-empty queue
  \<^item> for every registered context and every record of the queue, the calls of the loop
    body for that pair are part of what the cycle does, with no condition on the
    \<open>thread_idx\<close> of the record;
  \<^item> when the context has the public function of the record, the loop body makes
    exactly one callback invocation, on that context;
  \<^item> whether the loop body does anything does not change with the \<open>thread_idx\<close> of the
    record;
  \<^item> when the context lacks the public function, the loop body does nothing and the
    cycle goes on;
  \<^item> with one record in the queue and every registered context having its public
    function, the cycle makes as many callback invocations as there are registered
    contexts.
\<close>

theorem broadcast_delivery:
  assumes "bcrypt_queue s \<noteq> []"
  shows "(\<forall>a\<in>set (p_Amx s). \<forall>t\<in>set (bcrypt_queue s).
            \<exists>pre post. fst (ProcessTick ext s) = pre @ deliver ext a t @ post) \<and>
         (\<forall>a t. fst (amx_FindPublic ext a (public_name t)) = 0 \<longrightarrow>
            filter is_callback (deliver ext a t) =
              [amx_Exec a (snd (amx_FindPublic ext a (public_name t)))]) \<and>
         (\<forall>a t i. (deliver ext a (t\<lparr>thread_idx := i\<rparr>) = []) = (deliver ext a t = [])) \<and>
         (\<forall>a t. fst (amx_FindPublic ext a (public_name t)) \<noteq> 0 \<longrightarrow> deliver ext a t = []) \<and>
         (\<forall>t. bcrypt_queue s = [t] \<longrightarrow>
            (\<forall>a\<in>set (p_Amx s). fst (amx_FindPublic ext a (public_name t)) = 0) \<longrightarrow>
            length (filter is_callback (fst (ProcessTick ext s))) = length (p_Amx s))"
proof (intro conjI allI ballI impI)
  fix a t
  assume "a \<in> set (p_Amx s)" and "t \<in> set (bcrypt_queue s)"
  from amx_loop_offers [OF this, of ext] assms
  show "\<exists>pre post. fst (ProcessTick ext s) = pre @ deliver ext a t @ post"
    by (simp add: ProcessTick_def ProcessTick_locked_def)
next
  fix a t
  assume "fst (amx_FindPublic ext a (public_name t)) = 0"
  thus "filter is_callback (deliver ext a t) =
          [amx_Exec a (snd (amx_FindPublic ext a (public_name t)))]"
    by (rule deliver_found)
next
  fix a t i
  show "(deliver ext a (t\<lparr>thread_idx := i\<rparr>) = []) = (deliver ext a t = [])"
    by (simp add: deliver_empty_iff public_name_def)
next
  fix a t
  assume "fst (amx_FindPublic ext a (public_name t)) \<noteq> 0"
  thus "deliver ext a t = []" by (rule deliver_not_found)
next
  fix t
  assume "bcrypt_queue s = [t]"
    and "\<forall>a\<in>set (p_Amx s). fst (amx_FindPublic ext a (public_name t)) = 0"
  thus "length (filter is_callback (fst (ProcessTick ext s))) = length (p_Amx s)"
    by (simp add: ProcessTick_def ProcessTick_locked_def fan_out_one)
qed

theorem broadcast_delivery_witness:
  "bcrypt_queue (demo_plugin\<lparr>bcrypt_queue := [demo_check_item]\<rparr>) \<noteq> [] \<and>
   thread_idx demo_check_item = 5 \<and>
   fst (ProcessTick demo_extern (demo_plugin\<lparr>bcrypt_queue := [demo_check_item]\<rparr>)) =
     [amx_Push 1 1, amx_Push 1 43, amx_Push 1 5, amx_Exec 1 7,
      amx_Push 2 1, amx_Push 2 43, amx_Push 2 5, amx_Exec 2 7] \<and>
   fst (amx_FindPublic demo_extern 0 (public_name demo_check_item)) \<noteq> 0 \<and>
   deliver demo_extern 0 demo_check_item = [] \<and>
   p_Amx (demo_plugin\<lparr>p_Amx := [1, 2, 3], bcrypt_queue := [demo_hash_item]\<rparr>) = [1, 2, 3] \<and>
   fst (amx_FindPublic demo_extern 1 (public_name demo_hash_item)) = 0 \<and>
   fst (amx_FindPublic demo_extern 2 (public_name demo_hash_item)) = 0 \<and>
   fst (amx_FindPublic demo_extern 3 (public_name demo_hash_item)) = 0 \<and>
   length (filter is_callback (fst (ProcessTick demo_extern
     (demo_plugin\<lparr>p_Amx := [1, 2, 3], bcrypt_queue := [demo_hash_item]\<rparr>)))) = 3"
proof -
  have q: "bcrypt_queue (demo_plugin\<lparr>bcrypt_queue := [demo_check_item]\<rparr>) \<noteq> []"
    and q': "bcrypt_queue (demo_plugin\<lparr>p_Amx := [1, 2, 3], bcrypt_queue := [demo_hash_item]\<rparr>)
               \<noteq> []"
    by simp_all
  have all: "\<forall>a\<in>set (p_Amx (demo_plugin\<lparr>p_Amx := [1, 2, 3],
                 bcrypt_queue := [demo_hash_item]\<rparr>)).
      fst (amx_FindPublic demo_extern a (public_name demo_hash_item)) = 0"
    by (simp add: demo_extern_def)
  have nf: "fst (amx_FindPublic demo_extern 0 (public_name demo_check_item)) \<noteq> 0"
    by (simp add: demo_extern_def)
  from broadcast_delivery [OF q, of demo_extern] nf
  have skip: "deliver demo_extern 0 demo_check_item = []"
    by blast
  have one: "bcrypt_queue (demo_plugin\<lparr>p_Amx := [1, 2, 3], bcrypt_queue := [demo_hash_item]\<rparr>)
               = [demo_hash_item]"
    by simp
  from broadcast_delivery [OF q', of demo_extern] one all
  have "length (filter is_callback (fst (ProcessTick demo_extern
     (demo_plugin\<lparr>p_Amx := [1, 2, 3], bcrypt_queue := [demo_hash_item]\<rparr>)))) =
        length (p_Amx (demo_plugin\<lparr>p_Amx := [1, 2, 3], bcrypt_queue := [demo_hash_item]\<rparr>))"
    by blast
  hence m: "length (filter is_callback (fst (ProcessTick demo_extern
     (demo_plugin\<lparr>p_Amx := [1, 2, 3], bcrypt_queue := [demo_hash_item]\<rparr>)))) = 3"
    by simp
  have tr: "fst (ProcessTick demo_extern (demo_plugin\<lparr>bcrypt_queue := [demo_check_item]\<rparr>)) =
     [amx_Push 1 1, amx_Push 1 43, amx_Push 1 5, amx_Exec 1 7,
      amx_Push 2 1, amx_Push 2 43, amx_Push 2 5, amx_Exec 2 7]"
    by (simp add: ProcessTick_def ProcessTick_locked_def deliver_def demo_plugin_def
        demo_extern_def demo_check_item_def)
  have "thread_idx demo_check_item = 5"
    by (simp add: demo_check_item_def)
  moreover
  have "p_Amx (demo_plugin\<lparr>p_Amx := [1, 2, 3], bcrypt_queue := [demo_hash_item]\<rparr>) = [1, 2, 3]"
    and "fst (amx_FindPublic demo_extern 1 (public_name demo_hash_item)) = 0"
    and "fst (amx_FindPublic demo_extern 2 (public_name demo_hash_item)) = 0"
    and "fst (amx_FindPublic demo_extern 3 (public_name demo_hash_item)) = 0"
    by (simp_all add: demo_extern_def)
  ultimately show ?thesis using q tr nf skip m by (intro conjI)
qed

text \<open>
  C5. The calls of a drain cycle over a non-empty queue are the calls of the loop body
  for each registered context in the order of the registry and, within one context, for
  each record in the order of the queue. They are the same for any two states with the
  same registry and queue. The order of the registry is the order in which \<open>AmxLoad\<close>
  attached the contexts.
\<close>

theorem delivery_order:
  assumes "bcrypt_queue s \<noteq> []"
  shows "fst (ProcessTick ext s) =
           concat (map (\<lambda>a. concat (map (\<lambda>t. deliver ext a t) (bcrypt_queue s))) (p_Amx s)) \<and>
         (\<forall>s'. p_Amx s' = p_Amx s \<longrightarrow> bcrypt_queue s' = bcrypt_queue s \<longrightarrow>
            fst (ProcessTick ext s') = fst (ProcessTick ext s)) \<and>
         p_Amx (fold AmxLoad as s) = p_Amx s @ as"
proof (intro conjI allI impI)
  show "fst (ProcessTick ext s) =
          concat (map (\<lambda>a. concat (map (\<lambda>t. deliver ext a t) (bcrypt_queue s))) (p_Amx s))"
    using assms
    by (simp add: ProcessTick_def ProcessTick_locked_def amx_loop_concat queue_loop_concat)
next
  fix s' :: "'a plugin"
  assume "p_Amx s' = p_Amx s" and "bcrypt_queue s' = bcrypt_queue s"
  thus "fst (ProcessTick ext s') = fst (ProcessTick ext s)"
    by (simp add: ProcessTick_def ProcessTick_locked_def)
next
  show "p_Amx (fold AmxLoad as s) = p_Amx s @ as"
    by (induction as arbitrary: s) (simp_all add: AmxLoad_def)
qed

theorem delivery_order_witness:
  "bcrypt_queue (demo_plugin\<lparr>bcrypt_queue := [demo_hash_item, demo_check_item]\<rparr>) \<noteq> [] \<and>
   p_Amx (fold AmxLoad [1, 0, 2] (demo_plugin\<lparr>p_Amx := []\<rparr>)) = [1, 0, 2] \<and>
   fst (ProcessTick demo_extern
          (demo_plugin\<lparr>bcrypt_queue := [demo_hash_item, demo_check_item]\<rparr>)) =
     [amx_PushString 1 ''$2y$abc'', amx_Push 1 42, amx_Push 1 1, amx_Exec 1 7, amx_Release 1,
      amx_Push 1 1, amx_Push 1 43, amx_Push 1 5, amx_Exec 1 7,
      amx_PushString 2 ''$2y$abc'', amx_Push 2 42, amx_Push 2 1, amx_Exec 2 7, amx_Release 2,
      amx_Push 2 1, amx_Push 2 43, amx_Push 2 5, amx_Exec 2 7]"
proof -
  have q: "bcrypt_queue (demo_plugin\<lparr>bcrypt_queue := [demo_hash_item, demo_check_item]\<rparr>) \<noteq> []"
    by simp
  have q0: "bcrypt_queue (demo_plugin\<lparr>p_Amx := [], bcrypt_queue := [demo_hash_item]\<rparr>) \<noteq> []"
    by simp
  from delivery_order [OF q0, of demo_extern "[1, 0, 2]"]
  have l: "p_Amx (fold AmxLoad [1, 0, 2] (demo_plugin\<lparr>p_Amx := []\<rparr>)) = [1, 0, 2]"
    by (simp add: AmxLoad_def)
  from delivery_order [OF q, of demo_extern]
  have "fst (ProcessTick demo_extern
          (demo_plugin\<lparr>bcrypt_queue := [demo_hash_item, demo_check_item]\<rparr>)) =
        concat (map (\<lambda>a. concat (map (\<lambda>t. deliver demo_extern a t)
          (bcrypt_queue (demo_plugin\<lparr>bcrypt_queue := [demo_hash_item, demo_check_item]\<rparr>))))
          (p_Amx (demo_plugin\<lparr>bcrypt_queue := [demo_hash_item, demo_check_item]\<rparr>)))"
    by blast
  hence "fst (ProcessTick demo_extern
          (demo_plugin\<lparr>bcrypt_queue := [demo_hash_item, demo_check_item]\<rparr>)) =
     [amx_PushString 1 ''$2y$abc'', amx_Push 1 42, amx_Push 1 1, amx_Exec 1 7, amx_Release 1,
      amx_Push 1 1, amx_Push 1 43, amx_Push 1 5, amx_Exec 1 7,
      amx_PushString 2 ''$2y$abc'', amx_Push 2 42, amx_Push 2 1, amx_Exec 2 7, amx_Release 2,
      amx_Push 2 1, amx_Push 2 43, amx_Push 2 5, amx_Exec 2 7]"
    by (simp add: deliver_def demo_plugin_def demo_extern_def demo_check_item_def
        demo_hash_item_def)
  with q l show ?thesis by blast
qed

subsection \<open>Workers and drain cycles interleaved\<close>

text \<open>
  The two steps of the host thread, run with no worker in between, are one call of
  \<open>ProcessTick\<close>.
\<close>

lemma ProcessTick_as_steps:
  assumes "tick_pc sys = Outside"
  shows "exec ext (if bcrypt_queue (plugin sys) = [] then [Tick_test]
                   else [Tick_test, Tick_locked]) sys =
         Some (sys\<lparr>plugin := snd (ProcessTick ext (plugin sys)),
                   cycles := cycles sys @
                     [if bcrypt_queue (plugin sys) = []
                      then \<lparr>contexts = [], offered = [], calls = []\<rparr>
                      else \<lparr>contexts = p_Amx (plugin sys),
                            offered = bcrypt_queue (plugin sys),
                            calls = fst (ProcessTick ext (plugin sys))\<rparr>]\<rparr>)"
  using assms by (simp add: ProcessTick_def ProcessTick_locked_def)

text \<open>
  A worker appends exactly one record, whatever the queue holds.
\<close>

lemma run_thread_push: "run_thread ext th queue = queue @ run_thread ext th []"
  by (cases th) (simp_all add: thread_generate_bcrypt_def thread_check_bcrypt_def)

lemma run_thread_single: "\<exists>r. run_thread ext th [] = [r]"
  by (cases th) (simp_all add: thread_generate_bcrypt_def thread_check_bcrypt_def)

lemma pushed_Cons: "pushed ext (e # es) = pushed ext [e] @ pushed ext es"
  by (cases e) simp_all

lemma step_conserve:
  assumes "step ext e sys = Some sys'"
  shows "\<exists>cs. cycles sys' = cycles sys @ cs \<and>
           concat (map offered cs) @ bcrypt_queue (plugin sys') =
             bcrypt_queue (plugin sys) @ pushed ext [e] \<and>
           (\<forall>c\<in>set cs. calls c = amx_loop ext (contexts c) (offered c))"
proof (cases e)
  case (Worker th)
  with assms have "cycles sys' = cycles sys @ []"
    and "bcrypt_queue (plugin sys') = bcrypt_queue (plugin sys) @ run_thread ext th []"
    using run_thread_push [of ext th "bcrypt_queue (plugin sys)"] by auto
  with Worker show ?thesis by auto
next
  case (Host_AmxLoad a)
  with assms have "cycles sys' = cycles sys @ []"
    and "bcrypt_queue (plugin sys') = bcrypt_queue (plugin sys)"
    by (auto simp: AmxLoad_def split: if_splits)
  with Host_AmxLoad show ?thesis by auto
next
  case Tick_test
  show ?thesis
  proof (cases "bcrypt_queue (plugin sys) = []")
    case True
    with assms Tick_test
    have "cycles sys' = cycles sys @ [\<lparr>contexts = [], offered = [], calls = []\<rparr>]"
      and "bcrypt_queue (plugin sys') = []"
      by (auto split: if_splits)
    with True Tick_test show ?thesis by auto
  next
    case False
    with assms Tick_test have "cycles sys' = cycles sys @ []"
      and "bcrypt_queue (plugin sys') = bcrypt_queue (plugin sys)"
      by (auto split: if_splits)
    with Tick_test show ?thesis by auto
  qed
next
  case Tick_locked
  with assms
  have "cycles sys' = cycles sys @
          [\<lparr>contexts = p_Amx (plugin sys), offered = bcrypt_queue (plugin sys),
            calls = amx_loop ext (p_Amx (plugin sys)) (bcrypt_queue (plugin sys))\<rparr>]"
    and "bcrypt_queue (plugin sys') = []"
    by (auto simp: ProcessTick_locked_def split: if_splits)
  with Tick_locked show ?thesis by auto
qed

lemma exec_conserve:
  assumes "exec ext evs sys = Some sys'"
  shows "\<exists>cs. cycles sys' = cycles sys @ cs \<and>
           concat (map offered cs) @ bcrypt_queue (plugin sys') =
             bcrypt_queue (plugin sys) @ pushed ext evs \<and>
           (\<forall>c\<in>set cs. calls c = amx_loop ext (contexts c) (offered c))"
  using assms
proof (induction evs arbitrary: sys)
  case Nil
  thus ?case by simp
next
  case (Cons e es)
  then obtain sys1 where s1: "step ext e sys = Some sys1" and e1: "exec ext es sys1 = Some sys'"
    by (auto split: option.splits)
  from step_conserve [OF s1] obtain cs1 where
    a1: "cycles sys1 = cycles sys @ cs1"
    and b1: "concat (map offered cs1) @ bcrypt_queue (plugin sys1) =
             bcrypt_queue (plugin sys) @ pushed ext [e]"
    and c1: "\<forall>c\<in>set cs1. calls c = amx_loop ext (contexts c) (offered c)"
    by blast
  from Cons.IH [OF e1] obtain cs2 where
    a2: "cycles sys' = cycles sys1 @ cs2"
    and b2: "concat (map offered cs2) @ bcrypt_queue (plugin sys') =
             bcrypt_queue (plugin sys1) @ pushed ext es"
    and c2: "\<forall>c\<in>set cs2. calls c = amx_loop ext (contexts c) (offered c)"
    by blast
  have "concat (map offered (cs1 @ cs2)) @ bcrypt_queue (plugin sys') =
          concat (map offered cs1) @ (concat (map offered cs2) @ bcrypt_queue (plugin sys'))"
    by simp
  also have "\<dots> = (concat (map offered cs1) @ bcrypt_queue (plugin sys1)) @ pushed ext es"
    by (simp only: b2 append_assoc)
  also have "\<dots> = bcrypt_queue (plugin sys) @ pushed ext (e # es)"
    by (simp only: b1 append_assoc pushed_Cons [of ext e es])
  finally have "concat (map offered (cs1 @ cs2)) @ bcrypt_queue (plugin sys') =
          bcrypt_queue (plugin sys) @ pushed ext (e # es)" .
  moreover from a1 a2 have "cycles sys' = cycles sys @ (cs1 @ cs2)" by simp
  moreover from c1 c2
  have "\<forall>c\<in>set (cs1 @ cs2). calls c = amx_loop ext (contexts c) (offered c)" by auto
  ultimately show ?case by blast
qed

lemma exec_capture:
  assumes "exec ext evs sys = Some sys'" and "r \<in> set (bcrypt_queue (plugin sys))"
  shows "(cycles sys' = cycles sys \<and> r \<in> set (bcrypt_queue (plugin sys'))) \<or>
         (length (cycles sys) < length (cycles sys') \<and>
          r \<in> set (offered (cycles sys' ! length (cycles sys))))"
  using assms
proof (induction evs arbitrary: sys)
  case Nil
  thus ?case by simp
next
  case (Cons e es)
  then obtain sys1 where s1: "step ext e sys = Some sys1" and e1: "exec ext es sys1 = Some sys'"
    by (auto split: option.splits)
  show ?case
  proof (cases "e = Tick_locked")
    case True
    with s1 have c: "cycles sys1 = cycles sys @
          [\<lparr>contexts = p_Amx (plugin sys), offered = bcrypt_queue (plugin sys),
            calls = amx_loop ext (p_Amx (plugin sys)) (bcrypt_queue (plugin sys))\<rparr>]"
      by (auto simp: ProcessTick_locked_def split: if_splits)
    from exec_conserve [OF e1] obtain cs where "cycles sys' = cycles sys1 @ cs" by blast
    with c have "cycles sys' = cycles sys @
          \<lparr>contexts = p_Amx (plugin sys), offered = bcrypt_queue (plugin sys),
            calls = amx_loop ext (p_Amx (plugin sys)) (bcrypt_queue (plugin sys))\<rparr> # cs"
      by simp
    with Cons.prems(2) show ?thesis by simp
  next
    case False
    with s1 Cons.prems(2) have "cycles sys1 = cycles sys"
      and "r \<in> set (bcrypt_queue (plugin sys1))"
      using run_thread_push [of ext _ "bcrypt_queue (plugin sys)"]
      by (cases e; auto simp: AmxLoad_def split: if_splits)+
    with Cons.IH [OF e1] show ?thesis by simp
  qed
qed

lemma deliver_callback:
  assumes "fst (amx_FindPublic ext a (public_name t)) = 0"
  shows "amx_Exec a (snd (amx_FindPublic ext a (public_name t))) \<in> set (deliver ext a t)"
proof -
  have "amx_Exec a (snd (amx_FindPublic ext a (public_name t)))
          \<in> set (filter is_callback (deliver ext a t))"
    by (simp add: deliver_found [OF assms])
  thus ?thesis by simp
qed

lemma cycle_delivers:
  assumes "calls c = amx_loop ext (contexts c) (offered c)"
    and "r \<in> set (offered c)" and "a \<in> set (contexts c)"
  shows "(\<exists>pre post. calls c = pre @ deliver ext a r @ post) \<and>
         (fst (amx_FindPublic ext a (public_name r)) = 0 \<longrightarrow>
            amx_Exec a (snd (amx_FindPublic ext a (public_name r))) \<in> set (calls c))"
proof -
  from amx_loop_offers [OF assms(3) assms(2), of ext] assms(1)
  obtain pre post where p: "calls c = pre @ deliver ext a r @ post"
    by auto
  have "amx_Exec a (snd (amx_FindPublic ext a (public_name r))) \<in> set (calls c)"
    if "fst (amx_FindPublic ext a (public_name r)) = 0"
    using deliver_callback [OF that] p by simp
  with p show ?thesis by blast
qed

text \<open>
  C1. Take any run of the system that starts with the push of a worker, whatever the
  state it starts in and however pushes, the test of line 178 and the locked part of
  \<open>ProcessTick\<close> interleave afterwards. Let \<open>r\<close> be the record pushed and \<open>cs\<close> the
  calls of \<open>ProcessTick\<close> that finish during the run. Then
  \<^item> the records the finished calls walked through and cleared, followed by the queue at
    the end, are exactly the queue at the start followed by the records pushed, in
    order: no record leaves the queue except through the clear of a call that walked
    through it, and none is walked through twice;
  \<^item> what each finished call did in the contexts is the loop body run for every context
    it found registered, in order, and for every record it walked through, in order;
  \<^item> \<open>r\<close> is among the records of the first call that finishes after the push, which is
    the call in progress when the push fell between its test and its lock, and the
    next call otherwise; as long as no call has finished, \<open>r\<close> is in the queue;
  \<^item> in that first call the loop body is run for \<open>r\<close> on every context the call found
    registered, and every such context that has the public function of \<open>r\<close> gets its
    callback invocation there; a context without it gets nothing, and with no context
    registered nothing is called at all, and \<open>r\<close> is cleared all the same;
  \<^item> when the records are pairwise different, \<open>r\<close> is in no later call and no longer in
    the queue once that first call has finished.
\<close>

theorem drain_exactly_once:
  assumes "exec ext (Worker th # evs) sys = Some sys'"
  shows "\<exists>r cs. run_thread ext th [] = [r] \<and>
           cycles sys' = cycles sys @ cs \<and>
           concat (map offered cs) @ bcrypt_queue (plugin sys') =
             bcrypt_queue (plugin sys) @ r # pushed ext evs \<and>
           (\<forall>c\<in>set cs. calls c =
              concat (map (\<lambda>a. concat (map (\<lambda>t. deliver ext a t) (offered c)))
                (contexts c))) \<and>
           (if cs = [] then r \<in> set (bcrypt_queue (plugin sys'))
            else r \<in> set (offered (hd cs)) \<and>
                 (\<forall>a\<in>set (contexts (hd cs)).
                    (\<exists>pre post. calls (hd cs) = pre @ deliver ext a r @ post) \<and>
                    (fst (amx_FindPublic ext a (public_name r)) = 0 \<longrightarrow>
                       amx_Exec a (snd (amx_FindPublic ext a (public_name r)))
                         \<in> set (calls (hd cs))))) \<and>
           (distinct (bcrypt_queue (plugin sys) @ r # pushed ext evs) \<longrightarrow> cs \<noteq> [] \<longrightarrow>
              r \<notin> set (concat (map offered (tl cs))) \<and>
              r \<notin> set (bcrypt_queue (plugin sys')))"
proof -
  obtain r where r: "run_thread ext th [] = [r]"
    using run_thread_single [of ext th] by blast
  from exec_conserve [OF assms] r obtain cs where
    a: "cycles sys' = cycles sys @ cs"
    and b: "concat (map offered cs) @ bcrypt_queue (plugin sys') =
              bcrypt_queue (plugin sys) @ r # pushed ext evs"
    and c: "\<forall>c\<in>set cs. calls c = amx_loop ext (contexts c) (offered c)"
    by auto
  from c have c': "\<forall>c\<in>set cs. calls c =
      concat (map (\<lambda>a. concat (map (\<lambda>t. deliver ext a t) (offered c))) (contexts c))"
    by (simp add: amx_loop_concat queue_loop_concat)
  let ?sys1 = "sys\<lparr>plugin := (plugin sys)
             \<lparr>bcrypt_queue := run_thread ext th (bcrypt_queue (plugin sys))\<rparr>\<rparr>"
  from assms have e1: "exec ext evs ?sys1 = Some sys'" by simp
  have "r \<in> set (bcrypt_queue (plugin ?sys1))"
    using run_thread_push [of ext th "bcrypt_queue (plugin sys)"] r by simp
  from exec_capture [OF e1 this]
  have "(cycles sys' = cycles sys \<and> r \<in> set (bcrypt_queue (plugin sys'))) \<or>
        (length (cycles sys) < length (cycles sys') \<and>
         r \<in> set (offered (cycles sys' ! length (cycles sys))))"
    by simp
  with a have d0: "if cs = [] then r \<in> set (bcrypt_queue (plugin sys'))
                   else r \<in> set (offered (hd cs))"
    by (cases cs) auto
  have d1: "\<forall>a\<in>set (contexts (hd cs)).
              (\<exists>pre post. calls (hd cs) = pre @ deliver ext a r @ post) \<and>
              (fst (amx_FindPublic ext a (public_name r)) = 0 \<longrightarrow>
                 amx_Exec a (snd (amx_FindPublic ext a (public_name r)))
                   \<in> set (calls (hd cs)))"
    if ne: "cs \<noteq> []"
  proof
    fix a
    assume m: "a \<in> set (contexts (hd cs))"
    from ne have "hd cs \<in> set cs" by simp
    with c have h: "calls (hd cs) = amx_loop ext (contexts (hd cs)) (offered (hd cs))"
      by blast
    from ne d0 have "r \<in> set (offered (hd cs))" by simp
    from cycle_delivers [OF h this m]
    show "(\<exists>pre post. calls (hd cs) = pre @ deliver ext a r @ post) \<and>
          (fst (amx_FindPublic ext a (public_name r)) = 0 \<longrightarrow>
             amx_Exec a (snd (amx_FindPublic ext a (public_name r)))
               \<in> set (calls (hd cs)))" .
  qed
  from d0 d1 have d: "if cs = [] then r \<in> set (bcrypt_queue (plugin sys'))
            else r \<in> set (offered (hd cs)) \<and>
                 (\<forall>a\<in>set (contexts (hd cs)).
                    (\<exists>pre post. calls (hd cs) = pre @ deliver ext a r @ post) \<and>
                    (fst (amx_FindPublic ext a (public_name r)) = 0 \<longrightarrow>
                       amx_Exec a (snd (amx_FindPublic ext a (public_name r)))
                         \<in> set (calls (hd cs))))"
    by (cases "cs = []") simp_all
  have e: "r \<notin> set (concat (map offered (tl cs))) \<and> r \<notin> set (bcrypt_queue (plugin sys'))"
    if dist: "distinct (bcrypt_queue (plugin sys) @ r # pushed ext evs)" and ne: "cs \<noteq> []"
  proof -
    from ne obtain c cs' where cs: "cs = c # cs'" by (cases cs) auto
    with d0 have rc: "r \<in> set (offered c)" by simp
    from dist b have "distinct (concat (map offered cs) @ bcrypt_queue (plugin sys'))"
      by simp
    with cs have "distinct (offered c @ (concat (map offered cs') @ bcrypt_queue (plugin sys')))"
      by simp
    hence "set (offered c) \<inter> set (concat (map offered cs') @ bcrypt_queue (plugin sys')) = {}"
      by (simp only: distinct_append)
    with rc have "r \<notin> set (concat (map offered cs') @ bcrypt_queue (plugin sys'))"
      by blast
    with cs show ?thesis by simp
  qed
  from r a b c' d e show ?thesis by blast
qed

theorem drain_exactly_once_witness:
  "\<exists>sys'. exec demo_extern
       [Worker (Thread_generate_bcrypt 1 42 ''abc'' 10), Tick_test,
        Worker (Thread_check_bcrypt 5 43 ''abc'' ''$2y$abc''), Tick_locked,
        Worker (Thread_check_bcrypt 5 43 ''abc'' ''no''), Tick_test] demo_system = Some sys' \<and>
     map offered (cycles sys') = [[demo_hash_item, demo_check_item]] \<and>
     map contexts (cycles sys') = [[1, 0, 2]] \<and>
     map calls (cycles sys') =
       [[amx_PushString 1 ''$2y$abc'', amx_Push 1 42, amx_Push 1 1, amx_Exec 1 7,
         amx_Release 1,
         amx_Push 1 1, amx_Push 1 43, amx_Push 1 5, amx_Exec 1 7,
         amx_PushString 2 ''$2y$abc'', amx_Push 2 42, amx_Push 2 1, amx_Exec 2 7,
         amx_Release 2,
         amx_Push 2 1, amx_Push 2 43, amx_Push 2 5, amx_Exec 2 7]] \<and>
     bcrypt_queue (plugin sys') = [demo_check_item\<lparr>match := False\<rparr>] \<and>
     tick_pc sys' = Entered \<and>
     demo_hash_item \<in> set (offered (hd (cycles sys'))) \<and>
     fst (amx_FindPublic demo_extern 2 (public_name demo_hash_item)) = 0 \<and>
     amx_Exec 2 7 \<in> set (calls (hd (cycles sys')))"
proof -
  let ?S = "\<lparr>plugin = demo_plugin\<lparr>bcrypt_queue := [demo_check_item\<lparr>match := False\<rparr>]\<rparr>,
         tick_pc = Entered,
         cycles = [\<lparr>contexts = [1, 0, 2], offered = [demo_hash_item, demo_check_item],
                    calls = amx_loop demo_extern [1, 0, 2] [demo_hash_item, demo_check_item]\<rparr>]\<rparr>"
  have e: "exec demo_extern
     (Worker (Thread_generate_bcrypt 1 42 ''abc'' 10) # [Tick_test,
      Worker (Thread_check_bcrypt 5 43 ''abc'' ''$2y$abc''), Tick_locked,
      Worker (Thread_check_bcrypt 5 43 ''abc'' ''no''), Tick_test]) demo_system = Some ?S"
    by (simp add: demo_system_def demo_plugin_def demo_extern_def demo_hash_item_def
        demo_check_item_def thread_generate_bcrypt_def thread_check_bcrypt_def
        ProcessTick_locked_def)
  have r: "run_thread demo_extern (Thread_generate_bcrypt 1 42 ''abc'' 10) [] = [demo_hash_item]"
    by (simp add: demo_extern_def demo_hash_item_def thread_generate_bcrypt_def)
  have f: "fst (amx_FindPublic demo_extern 2 (public_name demo_hash_item)) = 0"
    and g: "snd (amx_FindPublic demo_extern 2 (public_name demo_hash_item)) = 7"
    by (simp_all add: demo_extern_def)
  from drain_exactly_once [OF e] obtain r' cs where
    r': "run_thread demo_extern (Thread_generate_bcrypt 1 42 ''abc'' 10) [] = [r']"
    and cs: "cycles ?S = cycles demo_system @ cs"
    and cap: "if cs = [] then r' \<in> set (bcrypt_queue (plugin ?S))
              else r' \<in> set (offered (hd cs)) \<and>
                 (\<forall>a\<in>set (contexts (hd cs)).
                    (\<exists>pre post. calls (hd cs) = pre @ deliver demo_extern a r' @ post) \<and>
                    (fst (amx_FindPublic demo_extern a (public_name r')) = 0 \<longrightarrow>
                       amx_Exec a (snd (amx_FindPublic demo_extern a (public_name r')))
                         \<in> set (calls (hd cs))))"
    by blast
  from r r' have eq: "r' = demo_hash_item" by simp
  from cs have cse: "cs = cycles ?S"
    by (simp add: demo_system_def)
  hence ne: "cs \<noteq> []" by simp
  from cap ne eq have in_cycle: "demo_hash_item \<in> set (offered (hd cs))"
    and all: "\<forall>a\<in>set (contexts (hd cs)).
                (fst (amx_FindPublic demo_extern a (public_name demo_hash_item)) = 0 \<longrightarrow>
                   amx_Exec a (snd (amx_FindPublic demo_extern a (public_name demo_hash_item)))
                     \<in> set (calls (hd cs)))"
    by simp_all
  from cse have "(2 :: nat) \<in> set (contexts (hd cs))" by simp
  with all f g have ex2: "amx_Exec 2 7 \<in> set (calls (hd cs))" by fastforce
  have p: "map offered (cycles ?S) = [[demo_hash_item, demo_check_item]]"
    "map contexts (cycles ?S) = [[1, 0, 2]]"
    "bcrypt_queue (plugin ?S) = [demo_check_item\<lparr>match := False\<rparr>]"
    "tick_pc ?S = Entered"
    by simp_all
  have q: "map calls (cycles ?S) =
       [[amx_PushString 1 ''$2y$abc'', amx_Push 1 42, amx_Push 1 1, amx_Exec 1 7,
         amx_Release 1,
         amx_Push 1 1, amx_Push 1 43, amx_Push 1 5, amx_Exec 1 7,
         amx_PushString 2 ''$2y$abc'', amx_Push 2 42, amx_Push 2 1, amx_Exec 2 7,
         amx_Release 2,
         amx_Push 2 1, amx_Push 2 43, amx_Push 2 5, amx_Exec 2 7]]"
    by (simp add: deliver_def demo_extern_def demo_hash_item_def demo_check_item_def)
  from in_cycle cse have i: "demo_hash_item \<in> set (offered (hd (cycles ?S)))" by simp
  from ex2 cse have x: "amx_Exec 2 7 \<in> set (calls (hd (cycles ?S)))" by simp
  show ?thesis
    by (intro exI [of _ ?S] conjI) (rule e p q i f x)+
qed

text \<open>
  The same run from a state with no context registered, and from a state whose only
  context has no public function: the call of \<open>ProcessTick\<close> walks through the record
  pushed, makes no call into any context and clears the queue. The record is gone
  without having been handed to anyone, in that call or in any later one.
\<close>

theorem drain_exactly_once_counterexample:
  "exec demo_extern
     [Worker (Thread_generate_bcrypt 1 42 ''abc'' 10), Tick_test, Tick_locked]
     (demo_system\<lparr>plugin := demo_plugin\<lparr>p_Amx := []\<rparr>\<rparr>) =
   Some (demo_system\<lparr>plugin := demo_plugin\<lparr>p_Amx := []\<rparr>,
           cycles := [\<lparr>contexts = [], offered = [demo_hash_item], calls = []\<rparr>]\<rparr>) \<and>
   exec demo_extern
     [Worker (Thread_generate_bcrypt 1 42 ''abc'' 10), Tick_test, Tick_locked]
     (demo_system\<lparr>plugin := demo_plugin\<lparr>p_Amx := [0]\<rparr>\<rparr>) =
   Some (demo_system\<lparr>plugin := demo_plugin\<lparr>p_Amx := [0]\<rparr>,
           cycles := [\<lparr>contexts = [0], offered = [demo_hash_item], calls = []\<rparr>]\<rparr>) \<and>
   bcrypt_queue (demo_plugin\<lparr>p_Amx := []\<rparr>) = [] \<and>
   ProcessTick demo_extern (demo_plugin\<lparr>p_Amx := [], bcrypt_queue := [demo_hash_item]\<rparr>) =
     ([], demo_plugin\<lparr>p_Amx := []\<rparr>)"
  by (simp add: demo_system_def demo_plugin_def demo_extern_def demo_hash_item_def
      thread_generate_bcrypt_def ProcessTick_locked_def ProcessTick_def deliver_def)

text \<open>
  C9. A drain cycle that finds records in the queue and no context in the registry makes
  no call and leaves the state with the queue emptied. Whatever happens from that state
  on, the later cycles walk through records pushed by later workers only: the records
  of all later cycles followed by the queue are exactly the records pushed later.
\<close>

theorem drain_without_contexts:
  assumes "p_Amx s = []" and "bcrypt_queue s \<noteq> []"
  shows "ProcessTick ext s = ([], s\<lparr>bcrypt_queue := []\<rparr>) \<and>
         (\<forall>sys evs sys'. plugin sys = snd (ProcessTick ext s) \<longrightarrow>
            exec ext evs sys = Some sys' \<longrightarrow>
            (\<exists>cs. cycles sys' = cycles sys @ cs \<and>
                  concat (map offered cs) @ bcrypt_queue (plugin sys') = pushed ext evs))"
proof (intro conjI allI impI)
  show t: "ProcessTick ext s = ([], s\<lparr>bcrypt_queue := []\<rparr>)"
    using assms by (simp add: ProcessTick_def ProcessTick_locked_def)
  fix sys evs sys'
  assume "plugin sys = snd (ProcessTick ext s)" and e: "exec ext evs sys = Some sys'"
  with t have "bcrypt_queue (plugin sys) = []" by simp
  with exec_conserve [OF e]
  show "\<exists>cs. cycles sys' = cycles sys @ cs \<and>
             concat (map offered cs) @ bcrypt_queue (plugin sys') = pushed ext evs"
    by auto
qed

theorem drain_without_contexts_witness:
  "p_Amx (demo_plugin\<lparr>p_Amx := [], bcrypt_queue := [demo_hash_item, demo_check_item]\<rparr>) = [] \<and>
   bcrypt_queue (demo_plugin\<lparr>p_Amx := [], bcrypt_queue := [demo_hash_item, demo_check_item]\<rparr>)
     \<noteq> [] \<and>
   ProcessTick demo_extern
     (demo_plugin\<lparr>p_Amx := [], bcrypt_queue := [demo_hash_item, demo_check_item]\<rparr>) =
     ([], demo_plugin\<lparr>p_Amx := []\<rparr>) \<and>
   (\<exists>sys'. exec demo_extern
        [Host_AmxLoad 1, Worker (Thread_check_bcrypt 5 43 ''abc'' ''no''), Tick_test, Tick_locked]
        (demo_system\<lparr>plugin := demo_plugin\<lparr>p_Amx := []\<rparr>\<rparr>) = Some sys' \<and>
      map offered (cycles sys') = [[demo_check_item\<lparr>match := False\<rparr>]] \<and>
      map contexts (cycles sys') = [[1]] \<and>
      bcrypt_queue (plugin sys') = []) \<and>
   pushed demo_extern
     [Host_AmxLoad 1, Worker (Thread_check_bcrypt 5 43 ''abc'' ''no''), Tick_test,
      Tick_locked :: nat event] = [demo_check_item\<lparr>match := False\<rparr>]"
proof -
  let ?s = "demo_plugin\<lparr>p_Amx := [], bcrypt_queue := [demo_hash_item, demo_check_item]\<rparr>"
  have a: "p_Amx ?s = []" and b: "bcrypt_queue ?s \<noteq> []"
    by simp_all
  note w = drain_without_contexts [OF a b, of demo_extern]
  from w have t: "ProcessTick demo_extern ?s = ([], demo_plugin\<lparr>p_Amx := []\<rparr>)"
    by (simp add: demo_plugin_def)
  let ?S = "\<lparr>plugin = demo_plugin\<lparr>p_Amx := [1]\<rparr>, tick_pc = Outside,
          cycles = [\<lparr>contexts = [1], offered = [demo_check_item\<lparr>match := False\<rparr>],
                     calls = amx_loop demo_extern [1] [demo_check_item\<lparr>match := False\<rparr>]\<rparr>]\<rparr>"
  have e: "exec demo_extern
        [Host_AmxLoad 1, Worker (Thread_check_bcrypt 5 43 ''abc'' ''no''), Tick_test, Tick_locked]
        (demo_system\<lparr>plugin := demo_plugin\<lparr>p_Amx := []\<rparr>\<rparr>) = Some ?S"
    by (simp add: demo_system_def demo_plugin_def demo_extern_def demo_check_item_def
        thread_check_bcrypt_def ProcessTick_locked_def AmxLoad_def)
  have p: "map offered (cycles ?S) = [[demo_check_item\<lparr>match := False\<rparr>]]"
    "map contexts (cycles ?S) = [[1]]" "bcrypt_queue (plugin ?S) = []"
    by (simp_all add: demo_plugin_def)
  have "\<exists>sys'. exec demo_extern
        [Host_AmxLoad 1, Worker (Thread_check_bcrypt 5 43 ''abc'' ''no''), Tick_test, Tick_locked]
        (demo_system\<lparr>plugin := demo_plugin\<lparr>p_Amx := []\<rparr>\<rparr>) = Some sys' \<and>
      map offered (cycles sys') = [[demo_check_item\<lparr>match := False\<rparr>]] \<and>
      map contexts (cycles sys') = [[1]] \<and>
      bcrypt_queue (plugin sys') = []"
    by (intro exI [of _ ?S] conjI) (rule e p)+
  moreover
  have pl: "plugin (demo_system\<lparr>plugin := demo_plugin\<lparr>p_Amx := []\<rparr>\<rparr>) =
              snd (ProcessTick demo_extern ?s)"
    using t by simp
  from w [THEN conjunct2, rule_format, OF pl e]
  have "concat (map offered (cycles ?S)) @ bcrypt_queue (plugin ?S) =
          pushed demo_extern
            [Host_AmxLoad 1, Worker (Thread_check_bcrypt 5 43 ''abc'' ''no''), Tick_test,
             Tick_locked]"
    by (auto simp: demo_system_def)
  hence "pushed demo_extern
            [Host_AmxLoad 1, Worker (Thread_check_bcrypt 5 43 ''abc'' ''no''), Tick_test,
             Tick_locked :: nat event] = [demo_check_item\<lparr>match := False\<rparr>]"
    by (simp add: demo_plugin_def)
  ultimately show ?thesis using a b t by (intro conjI)
qed

subsection \<open>The shape of result records\<close>

text \<open>
  C4. The worker of a hash job appends one record of kind \<open>BCRYPT_QUEUE_HASH\<close> with the
  digest in \<open>hash\<close> and \<open>false\<close> in \<open>match\<close>; the worker of a check job appends one
  record of kind \<open>BCRYPT_QUEUE_CHECK\<close> with the empty string in \<open>hash\<close> and the
  outcome of the comparison in \<open>match\<close>. Both copy \<open>thread_idx\<close> and \<open>thread_id\<close> from
  the arguments the thread was started with, and a native that accepts a call starts
  the thread with its first two arguments in these places. So every record pushed in a
  run has \<open>match = false\<close> when it is a hash record and the empty \<open>hash\<close> when it is a
  check record.
\<close>

theorem result_record_shape:
  "run_thread ext (Thread_generate_bcrypt t_idx t_id buffer cost) queue =
     queue @ [\<lparr>type = BCRYPT_QUEUE_HASH, thread_idx = t_idx, thread_id = t_id,
                hash = bcrypt_generate ext cost ''2y'' buffer, match = False\<rparr>] \<and>
   run_thread ext (Thread_check_bcrypt t_idx t_id password h) queue =
     queue @ [\<lparr>type = BCRYPT_QUEUE_CHECK, thread_idx = t_idx, thread_id = t_id,
                hash = [], match = bcrypt_compare ext password h\<rparr>] \<and>
   (\<forall>r\<in>set (pushed ext evs).
      (type r = BCRYPT_QUEUE_HASH \<longrightarrow> match r = False) \<and>
      (type r = BCRYPT_QUEUE_CHECK \<longrightarrow> hash r = [])) \<and>
   (fst (bcrypt_hash ext amx params s) = 1 \<longrightarrow>
      (\<exists>password cost. threads (snd (bcrypt_hash ext amx params s)) =
         threads s @ [Thread_generate_bcrypt (params ! 1) (params ! 2) password cost])) \<and>
   (fst (bcrypt_check ext amx params s) = 1 \<longrightarrow>
      (\<exists>password h. threads (snd (bcrypt_check ext amx params s)) =
         threads s @ [Thread_check_bcrypt (params ! 1) (params ! 2) password h]))"
proof (intro conjI)
  show "run_thread ext (Thread_generate_bcrypt t_idx t_id buffer cost) queue =
     queue @ [\<lparr>type = BCRYPT_QUEUE_HASH, thread_idx = t_idx, thread_id = t_id,
                hash = bcrypt_generate ext cost ''2y'' buffer, match = False\<rparr>]"
    by (simp add: thread_generate_bcrypt_def)
  show "run_thread ext (Thread_check_bcrypt t_idx t_id password h) queue =
     queue @ [\<lparr>type = BCRYPT_QUEUE_CHECK, thread_idx = t_idx, thread_id = t_id,
                hash = [], match = bcrypt_compare ext password h\<rparr>]"
    by (simp add: thread_check_bcrypt_def)
  show "\<forall>r\<in>set (pushed ext evs).
      (type r = BCRYPT_QUEUE_HASH \<longrightarrow> match r = False) \<and>
      (type r = BCRYPT_QUEUE_CHECK \<longrightarrow> hash r = [])"
  proof (induction evs)
    case Nil
    show ?case by simp
  next
    case (Cons e es)
    show ?case
    proof (cases e)
      case (Worker th)
      with Cons show ?thesis
        by (cases th) (auto simp: thread_generate_bcrypt_def thread_check_bcrypt_def)
    qed (use Cons in simp_all)
  qed
  show "fst (bcrypt_hash ext amx params s) = 1 \<longrightarrow>
      (\<exists>password cost. threads (snd (bcrypt_hash ext amx params s)) =
         threads s @ [Thread_generate_bcrypt (params ! 1) (params ! 2) password cost])"
    by (auto simp: bcrypt_hash_def Let_def split: if_splits)
  show "fst (bcrypt_check ext amx params s) = 1 \<longrightarrow>
      (\<exists>password h. threads (snd (bcrypt_check ext amx params s)) =
         threads s @ [Thread_check_bcrypt (params ! 1) (params ! 2) password h])"
    by (auto simp: bcrypt_check_def Let_def split: if_splits)
qed

theorem result_record_shape_witness:
  "pushed demo_extern
     [Worker (Thread_generate_bcrypt 1 42 ''abc'' 10), Tick_test :: nat event,
      Worker (Thread_check_bcrypt 5 43 ''abc'' ''$2y$abc'')] =
     [demo_hash_item, demo_check_item] \<and>
   type demo_hash_item = BCRYPT_QUEUE_HASH \<and> match demo_hash_item = False \<and>
   type demo_check_item = BCRYPT_QUEUE_CHECK \<and> hash demo_check_item = [] \<and>
   fst (bcrypt_hash demo_extern 1 [16, 1, 42, 100, 10] demo_plugin) = 1 \<and>
   threads (snd (bcrypt_hash demo_extern 1 [16, 1, 42, 100, 10] demo_plugin)) =
     [Thread_generate_bcrypt 1 42 ''abc'' 10]"
proof -
  let ?evs = "[Worker (Thread_generate_bcrypt 1 42 ''abc'' 10), Tick_test :: nat event,
      Worker (Thread_check_bcrypt 5 43 ''abc'' ''$2y$abc'')]"
  have p: "pushed demo_extern ?evs = [demo_hash_item, demo_check_item]"
    by (simp add: demo_extern_def demo_hash_item_def demo_check_item_def
        thread_generate_bcrypt_def thread_check_bcrypt_def)
  have ty: "type demo_hash_item = BCRYPT_QUEUE_HASH" "type demo_check_item = BCRYPT_QUEUE_CHECK"
    by (simp_all add: demo_hash_item_def demo_check_item_def)
  note w = result_record_shape [of demo_extern _ _ _ _ _ _ _ ?evs 1 "[16, 1, 42, 100, 10]"
      demo_plugin]
  from w p ty have "match demo_hash_item = False" and "hash demo_check_item = []"
    by auto
  moreover have "fst (bcrypt_hash demo_extern 1 [16, 1, 42, 100, 10] demo_plugin) = 1"
    and "threads (snd (bcrypt_hash demo_extern 1 [16, 1, 42, 100, 10] demo_plugin)) =
     [Thread_generate_bcrypt 1 42 ''abc'' 10]"
    by (simp_all add: bcrypt_hash_def demo_extern_def demo_plugin_def Let_def)
  ultimately show ?thesis using p ty by blast
qed

end
